theory Spec2Isabelle
  imports Main "HOL-Library.Char_ord" "HOL-Library.List_Lexorder" "HOL-Library.AList" "HOL-Library.Multiset"
begin

text \<open>
  A model of the asynchronous command execution of the extension: the allow-list gate and
  the command listing of \<^verbatim>\<open>CommandExecutor\<close>, the task queue of
  \<^verbatim>\<open>BackgroundTaskExecutor\<close>, and the two tools of \<^verbatim>\<open>FastMcpServer\<close> that use
  them. Methods are functions that take the state and return the new state, together with
  the value they return; a thrown error is a value of a sum type. The clock, the Command
  Host and the configuration are the environment: their answers are arguments.
\<close>

section \<open>Strings\<close>

text \<open>
  Command names, allow-list patterns and task identifiers are strings; they are modelled as
  lists of characters. The three string methods used by the allow-list gate follow the
  ECMAScript definitions of \<^verbatim>\<open>String.prototype.endsWith\<close>,
  \<^verbatim>\<open>String.prototype.startsWith\<close> and \<^verbatim>\<open>String.prototype.slice\<close>.
\<close>

definition endsWith :: "string \<Rightarrow> string \<Rightarrow> bool" where
  "endsWith s searchString =
     (length searchString \<le> length s \<and>
      drop (length s - length searchString) s = searchString)"

definition startsWith :: "string \<Rightarrow> string \<Rightarrow> bool" where
  "startsWith s searchString = (take (length searchString) s = searchString)"

text \<open>\<^verbatim>\<open>s.slice(b, e)\<close>: a negative index counts from the end, and both are clamped.\<close>

definition slice :: "string \<Rightarrow> int \<Rightarrow> int \<Rightarrow> string" where
  "slice s b e =
     (let len = int (length s);
          from = (if b < 0 then max (len + b) 0 else min b len);
          to = (if e < 0 then max (len + e) 0 else min e len)
      in take (nat (to - from)) (drop (nat from) s))"

section \<open>The allow-list gate\<close>

text \<open>
  \<^verbatim>\<open>CommandExecutor.isCommandAllowed\<close>; the field \<^verbatim>\<open>this.allowedCommands\<close> is the
  first argument.
\<close>

definition isCommandAllowed :: "string list \<Rightarrow> string \<Rightarrow> bool" where
  "isCommandAllowed allowedCommands command =
     (if length allowedCommands = 0 then True
      else list_ex (\<lambda>allowed.
             if endsWith allowed ''*''
             then (let prefix = slice allowed 0 (- 1) in startsWith command prefix)
             else command = allowed) allowedCommands)"

section \<open>Listing the commands\<close>

text \<open>
  \<^verbatim>\<open>CommandExecutor.getAvailableCommands\<close>. The Command Host's
  \<^verbatim>\<open>vscode.commands.getCommands()\<close> either yields the command names or fails; a failure
  is caught and the empty list returned. \<^verbatim>\<open>Array.prototype.sort\<close> without a comparator
  orders strings by their code units, which is the lexicographic order of character lists.
\<close>

definition getAvailableCommands :: "string list \<Rightarrow> string + string list \<Rightarrow> string list" where
  "getAvailableCommands allowedCommands getCommands =
     (case getCommands of
        Inl err \<Rightarrow> []
      | Inr commands \<Rightarrow>
          (let filtered = (if length allowedCommands > 0
                           then filter (\<lambda>cmd. isCommandAllowed allowedCommands cmd) commands
                           else commands)
           in sort filtered))"

text \<open>
  The text payload of the \<^verbatim>\<open>list_vscode_commands\<close> tool is a header with the number of
  commands, the first twenty names joined by newlines, and a trailing marker line when
  there are more than twenty. The fixed labels of the text are not ASCII and are left out:
  the payload is kept as its three variable parts.
\<close>

record CommandListing =
  total :: nat
  shown :: "string list"
  moreMarker :: bool

definition list_vscode_commands :: "string list \<Rightarrow> string + string list \<Rightarrow> CommandListing" where
  "list_vscode_commands allowedCommands getCommands =
     (let commands = getAvailableCommands allowedCommands getCommands
      in \<lparr> total = length commands,
           shown = take 20 commands,
           moreMarker = (length commands > 20) \<rparr>)"

section \<open>Decimal rendering of numbers\<close>

text \<open>
  A template literal renders an integral number in decimal, with a leading minus sign when it
  is negative.
\<close>

function toString_nat :: "nat \<Rightarrow> string" where
  "toString_nat n =
     (if n < 10 then [''0123456789'' ! n]
      else toString_nat (n div 10) @ [''0123456789'' ! (n mod 10)])"
  by pat_completeness auto
termination
  by (relation "measure (\<lambda>n. n)") auto

declare toString_nat.simps [simp del]

definition toString :: "int \<Rightarrow> string" where
  "toString i = (if i < 0 then ''-'' @ toString_nat (nat (- i)) else toString_nat (nat i))"

section \<open>Tasks, the heap and the state of the subsystem\<close>

datatype TaskStatus = pending | running | completed | failed | cancelled

text \<open>
  Values returned by the Command Host are opaque to the subsystem; they are represented by
  their text. Command arguments are strings, as the tool's parameter schema declares.
\<close>

type_synonym val = string

text \<open>The interface \<^verbatim>\<open>BackgroundTask\<close>; optional fields are options.\<close>

record BackgroundTask =
  id' :: string
  command :: string
  args :: "string list option"
  delay :: int
  status :: TaskStatus
  createdAt :: int
  startedAt :: "int option"
  completedAt :: "int option"
  result :: "val option"
  error :: "string option"

text \<open>
  A task is a mutable object that is shared between the \<^verbatim>\<open>Map\<close> of the executor and the
  suspended body of \<^verbatim>\<open>executeTask\<close> that waits for the Command Host. Objects therefore
  live in a heap and are addressed by references; the map holds references.
\<close>

type_synonym ref = nat

text \<open>
  One entry of the log of calls of \<^verbatim>\<open>vscode.commands.executeCommand\<close>: the task object
  on whose behalf the call was made (none for a synchronous call), the command and the
  arguments.
\<close>

datatype HostCall = HostCall (call_task: "ref option") (call_command: string) (call_args: "string list")

text \<open>The settings of the configuration section; an unset setting is \<open>None\<close>.\<close>

record Configuration =
  cfg_allowedCommands :: "string list option"
  cfg_asyncExecution :: "bool option"
  cfg_executionDelay :: "int option"
  cfg_showAsyncNotifications :: "bool option"

definition config_get :: "'a option \<Rightarrow> 'a \<Rightarrow> 'a" where
  "config_get setting defaultValue = (case setting of None \<Rightarrow> defaultValue | Some v \<Rightarrow> v)"

text \<open>
  The state: the environment (how often the clock has been read, the current configuration,
  the calls made to the Command Host, the calls still outstanding, the messages shown), the
  heap of task objects, the fields of \<^verbatim>\<open>BackgroundTaskExecutor\<close> and the fields of
  \<^verbatim>\<open>CommandExecutor\<close>. The \<^verbatim>\<open>Map\<close> of tasks is an association list in insertion
  order, as a \<^verbatim>\<open>Map\<close> iterates. A warning message is recorded by the number of pending
  tasks it reports, an information message of a finished task by its command, an error
  message by the command and the error text. The flag \<open>backgroundExecutor\<close> tells whether
  the field of that name has been assigned, which happens at the end of the constructor.
\<close>

record System =
  clockReads :: nat
  configuration :: Configuration
  hostCalls :: "HostCall list"
  awaiting :: "ref list"
  warningMessages :: "nat list"
  informationMessages :: "string list"
  errorMessages :: "(string \<times> string) list"
  objs :: "ref \<Rightarrow> BackgroundTask option"
  nextRef :: ref
  tasks :: "(string \<times> ref) list"
  taskCounter :: nat
  isRunning :: bool
  processingInterval :: bool
  allowedCommands :: "string list"
  asyncExecution :: bool
  executionDelay :: int
  backgroundExecutor :: bool

text \<open>
  \<^verbatim>\<open>Date.now()\<close>: the clock is an external sequence of readings \<open>clk\<close>; each call takes
  the next one.
\<close>

definition Date_now :: "(nat \<Rightarrow> int) \<Rightarrow> System \<Rightarrow> int \<times> System" where
  "Date_now clk s = (clk (clockReads s), s\<lparr>clockReads := Suc (clockReads s)\<rparr>)"

definition status_of :: "System \<Rightarrow> ref \<Rightarrow> TaskStatus option" where
  "status_of s r = map_option status (objs s r)"

definition createdAt_of :: "System \<Rightarrow> ref \<Rightarrow> int" where
  "createdAt_of s r = (case objs s r of None \<Rightarrow> 0 | Some task \<Rightarrow> createdAt task)"

text \<open>\<^verbatim>\<open>Array.from(this.tasks.values())\<close>, as references.\<close>

definition task_values :: "System \<Rightarrow> ref list" where
  "task_values s = map snd (tasks s)"

section \<open>The background task executor\<close>

text \<open>
  \<^verbatim>\<open>submitTask\<close>: the counter is incremented, the clock is read once for the identifier
  and once more for \<^verbatim>\<open>createdAt\<close>, a new task object is allocated and stored in the
  \<^verbatim>\<open>Map\<close> under its identifier.
\<close>

definition submitTask ::
  "(nat \<Rightarrow> int) \<Rightarrow> string \<Rightarrow> string list option \<Rightarrow> int \<Rightarrow> System \<Rightarrow> string \<times> System" where
  "submitTask clk cmd cmdArgs d s =
     (let counter = Suc (taskCounter s);
          (t1, s1) = Date_now clk (s\<lparr>taskCounter := counter\<rparr>);
          taskId = ''bg_task_'' @ toString_nat counter @ ''_'' @ toString t1;
          (t2, s2) = Date_now clk s1;
          task = \<lparr> id' = taskId, command = cmd, args = cmdArgs, delay = d, status = pending,
                   createdAt = t2, startedAt = None, completedAt = None,
                   result = None, error = None \<rparr>;
          r = nextRef s2
      in (taskId, s2\<lparr> objs := (objs s2)(r \<mapsto> task), nextRef := Suc r,
                       tasks := AList.update taskId r (tasks s2) \<rparr>))"

text \<open>
  \<^verbatim>\<open>executeTask\<close> up to its \<^verbatim>\<open>await\<close>: the guard, the change of status, the time stamp
  and the call of the Command Host, whose answer is outstanding afterwards.
\<close>

definition executeTask :: "(nat \<Rightarrow> int) \<Rightarrow> ref \<Rightarrow> System \<Rightarrow> System" where
  "executeTask clk r s =
     (case objs s r of
        None \<Rightarrow> s
      | Some task \<Rightarrow>
          if status task \<noteq> pending then s
          else
            (let (now, s1) = Date_now clk s;
                 task1 = task\<lparr>status := running, startedAt := Some now\<rparr>
             in s1\<lparr> objs := (objs s1)(r \<mapsto> task1),
                    hostCalls := hostCalls s1 @
                      [HostCall (Some r) (command task1)
                         (case args task1 of None \<Rightarrow> [] | Some a \<Rightarrow> a)],
                    awaiting := awaiting s1 @ [r] \<rparr>))"

text \<open>
  \<^verbatim>\<open>executeTask\<close> after its \<^verbatim>\<open>await\<close>: the Command Host has answered the call made for
  the task object \<open>r\<close>, with a value (\<open>Inr\<close>) or with the message of the error it raised
  (\<open>Inl\<close>). Nothing happens when no call is outstanding for \<open>r\<close>.
\<close>

definition executeTask_resume :: "(nat \<Rightarrow> int) \<Rightarrow> ref \<Rightarrow> string + val \<Rightarrow> System \<Rightarrow> System" where
  "executeTask_resume clk r outcome s =
     (if r \<notin> set (awaiting s) then s
      else
        (case objs s r of
           None \<Rightarrow> s
         | Some task \<Rightarrow>
             (let s0 = s\<lparr>awaiting := remove1 r (awaiting s)\<rparr>;
                  (now, s1) = Date_now clk s0
              in case outcome of
                   Inr res \<Rightarrow>
                     (let task1 = task\<lparr>status := completed, completedAt := Some now,
                                       result := Some res\<rparr>;
                          s2 = s1\<lparr>objs := (objs s1)(r \<mapsto> task1)\<rparr>;
                          showNotifications =
                            config_get (cfg_showAsyncNotifications (configuration s2)) False
                      in if showNotifications
                         then s2\<lparr>informationMessages :=
                                   informationMessages s2 @ [command task1]\<rparr>
                         else s2)
                 | Inl err \<Rightarrow>
                     (let task1 = task\<lparr>status := failed, completedAt := Some now,
                                       error := Some err\<rparr>;
                          s2 = s1\<lparr>objs := (objs s1)(r \<mapsto> task1)\<rparr>
                      in s2\<lparr>errorMessages := errorMessages s2 @ [(command task1, err)]\<rparr>))))"

text \<open>One iteration of the loop of \<^verbatim>\<open>processPendingTasks\<close>.\<close>

definition processTask :: "(nat \<Rightarrow> int) \<Rightarrow> ref \<Rightarrow> System \<Rightarrow> System" where
  "processTask clk r s =
     (case objs s r of
        None \<Rightarrow> s
      | Some task \<Rightarrow>
          if status task \<noteq> pending then s
          else
            (let (now, s1) = Date_now clk s;
                 shouldExecute = (now - createdAt task \<ge> delay task)
             in if shouldExecute then executeTask clk r s1 else s1))"

text \<open>
  \<^verbatim>\<open>processPendingTasks\<close>, called by the interval timer every 100 ms and once by a
  timeout after construction. The pending tasks are collected in the order of the
  \<^verbatim>\<open>Map\<close> and sorted by \<^verbatim>\<open>createdAt\<close>; \<^verbatim>\<open>Array.prototype.sort\<close> is stable, as is
  \<open>sort_key\<close>. The loop then visits them in that order.
\<close>

definition processPendingTasks :: "(nat \<Rightarrow> int) \<Rightarrow> System \<Rightarrow> System" where
  "processPendingTasks clk s =
     (if \<not> isRunning s then s
      else
        (let pendingTasks =
               sort_key (createdAt_of s)
                 (filter (\<lambda>r. status_of s r = Some pending) (task_values s))
         in fold (processTask clk) pendingTasks s))"

definition getTask :: "System \<Rightarrow> string \<Rightarrow> BackgroundTask option" where
  "getTask s taskId = (case map_of (tasks s) taskId of None \<Rightarrow> None | Some r \<Rightarrow> objs s r)"

definition getAllTasks :: "System \<Rightarrow> BackgroundTask list" where
  "getAllTasks s = List.map_filter (objs s) (task_values s)"

definition cancelTask :: "(nat \<Rightarrow> int) \<Rightarrow> string \<Rightarrow> System \<Rightarrow> bool \<times> System" where
  "cancelTask clk taskId s =
     (case map_of (tasks s) taskId of
        None \<Rightarrow> (False, s)
      | Some r \<Rightarrow>
          (case objs s r of
             None \<Rightarrow> (False, s)
           | Some task \<Rightarrow>
               if status task = pending \<or> status task = running
               then
                 (let (now, s1) = Date_now clk s;
                      task1 = task\<lparr>status := cancelled, completedAt := Some now\<rparr>
                  in (True, s1\<lparr>objs := (objs s1)(r \<mapsto> task1)\<rparr>))
               else (False, s)))"

definition clearCompletedTasks :: "System \<Rightarrow> nat \<times> System" where
  "clearCompletedTasks s =
     (let completedTasks =
            filter (\<lambda>task. status task \<in> set [completed, failed, cancelled]) (getAllTasks s)
      in (length completedTasks,
          s\<lparr>tasks := fold (\<lambda>task ts. AList.delete (id' task) ts) completedTasks (tasks s)\<rparr>))"

definition clearAllTasks :: "System \<Rightarrow> nat \<times> System" where
  "clearAllTasks s = (let count = length (tasks s) in (count, s\<lparr>tasks := []\<rparr>))"

record TaskStats =
  st_total :: nat
  st_pending :: nat
  st_running :: nat
  st_completed :: nat
  st_failed :: nat
  st_cancelled :: nat

definition getTaskStats :: "System \<Rightarrow> TaskStats" where
  "getTaskStats s =
     (let ts = getAllTasks s
      in \<lparr> st_total = length ts,
           st_pending = length (filter (\<lambda>t. status t = pending) ts),
           st_running = length (filter (\<lambda>t. status t = running) ts),
           st_completed = length (filter (\<lambda>t. status t = completed) ts),
           st_failed = length (filter (\<lambda>t. status t = failed) ts),
           st_cancelled = length (filter (\<lambda>t. status t = cancelled) ts) \<rparr>)"

definition stop :: "System \<Rightarrow> System" where
  "stop s = (let s1 = s\<lparr>isRunning := False\<rparr>
             in if processingInterval s1 then s1\<lparr>processingInterval := False\<rparr> else s1)"

definition dispose :: "System \<Rightarrow> System" where
  "dispose s = snd (clearAllTasks (stop s))"

section \<open>The command executor\<close>

text \<open>
  The object returned by \<^verbatim>\<open>CommandExecutor.executeCommand\<close>. Its \<^verbatim>\<open>message\<close> field,
  a fixed text around the command and the delay, is left out.
\<close>

record ExecutionResult =
  r_success :: bool
  r_async :: bool
  r_taskId :: "string option"
  r_result :: "val option"
  r_error :: "string option"
  r_command :: string
  r_arguments :: "string list option"
  r_executionDelay :: "int option"
  r_queueLength :: "nat option"
  r_taskStats :: "TaskStats option"

definition notAllowedMessage :: "string \<Rightarrow> string" where
  "notAllowedMessage cmd = ''Command '' @ [CHR 0x27] @ cmd @ [CHR 0x27] @ '' is not allowed''"

text \<open>
  \<^verbatim>\<open>executeCommand\<close> throws (\<open>Inl\<close>, with the message of the error) or returns its result
  object (\<open>Inr\<close>). In synchronous mode it awaits the Command Host, whose answer is the
  argument \<open>hostOutcome\<close>: a value, or the message of the error raised.
\<close>

definition executeCommand ::
  "(nat \<Rightarrow> int) \<Rightarrow> string + val \<Rightarrow> string \<Rightarrow> string list option \<Rightarrow> System
     \<Rightarrow> (string + ExecutionResult) \<times> System" where
  "executeCommand clk hostOutcome cmd cmdArgs s =
     (if \<not> isCommandAllowed (allowedCommands s) cmd then (Inl (notAllowedMessage cmd), s)
      else if asyncExecution s then
        (let (taskId, s1) = submitTask clk cmd cmdArgs (executionDelay s) s;
             stats = getTaskStats s1
         in (Inr \<lparr> r_success = True, r_async = True, r_taskId = Some taskId,
                    r_result = None, r_error = None, r_command = cmd, r_arguments = cmdArgs,
                    r_executionDelay = Some (executionDelay s1),
                    r_queueLength = Some (st_pending stats + st_running stats),
                    r_taskStats = Some stats \<rparr>, s1))
      else
        (let s1 = s\<lparr>hostCalls := hostCalls s @
                      [HostCall None cmd (case cmdArgs of None \<Rightarrow> [] | Some a \<Rightarrow> a)]\<rparr>
         in case hostOutcome of
              Inr res \<Rightarrow>
                (Inr \<lparr> r_success = True, r_async = False, r_taskId = None,
                       r_result = Some res, r_error = None, r_command = cmd,
                       r_arguments = cmdArgs, r_executionDelay = None,
                       r_queueLength = None, r_taskStats = None \<rparr>, s1)
            | Inl err \<Rightarrow>
                (Inr \<lparr> r_success = False, r_async = False, r_taskId = None,
                       r_result = None, r_error = Some err, r_command = cmd,
                       r_arguments = cmdArgs, r_executionDelay = None,
                       r_queueLength = None, r_taskStats = None \<rparr>, s1)))"

definition updateAllowedCommands :: "System \<Rightarrow> System" where
  "updateAllowedCommands s =
     s\<lparr>allowedCommands := config_get (cfg_allowedCommands (configuration s)) []\<rparr>"

definition updateAsyncConfig :: "System \<Rightarrow> System" where
  "updateAsyncConfig s =
     (let s1 = s\<lparr> asyncExecution := config_get (cfg_asyncExecution (configuration s)) True,
                   executionDelay := config_get (cfg_executionDelay (configuration s)) 0 \<rparr>
      in if \<not> asyncExecution s1 \<and> backgroundExecutor s1
         then
           (let stats = getTaskStats s1
            in if st_pending stats > 0
               then
                 (let s2 = s1\<lparr>warningMessages := warningMessages s1 @ [st_pending stats]\<rparr>
                  in snd (clearAllTasks s2))
               else s1)
         else s1)"

text \<open>
  The constructor of \<^verbatim>\<open>CommandExecutor\<close>: the two settings are read while the field
  \<^verbatim>\<open>backgroundExecutor\<close> is still unassigned, then the executor is created, which starts
  its timer.
\<close>

definition CommandExecutor_new :: "Configuration \<Rightarrow> System" where
  "CommandExecutor_new cfg =
     (let s0 = \<lparr> clockReads = 0, configuration = cfg, hostCalls = [], awaiting = [],
                  warningMessages = [], informationMessages = [], errorMessages = [],
                  objs = Map.empty, nextRef = 0, tasks = [], taskCounter = 0,
                  isRunning = True, processingInterval = False,
                  allowedCommands = [], asyncExecution = True, executionDelay = 0,
                  backgroundExecutor = False \<rparr>;
          s1 = updateAllowedCommands s0;
          s2 = updateAsyncConfig s1
      in s2\<lparr>backgroundExecutor := True, processingInterval := True\<rparr>)"

section \<open>The tools\<close>

text \<open>
  The response of the \<^verbatim>\<open>execute_vscode_command\<close> tool: a text that renders the result
  object, or, when \<^verbatim>\<open>executeCommand\<close> threw, a text with the message of the error and the
  flag \<^verbatim>\<open>isError\<close>.
\<close>

datatype ToolContent = ExecutionResultText ExecutionResult | ExecutionFailedText string

record ToolResponse =
  content :: ToolContent
  isError :: bool

definition execute_vscode_command ::
  "(nat \<Rightarrow> int) \<Rightarrow> string + val \<Rightarrow> string \<Rightarrow> string list option \<Rightarrow> System
     \<Rightarrow> ToolResponse \<times> System" where
  "execute_vscode_command clk hostOutcome cmd cmdArgs s =
     (case executeCommand clk hostOutcome cmd
             (Some (case cmdArgs of None \<Rightarrow> [] | Some a \<Rightarrow> a)) s of
        (Inr res, s1) \<Rightarrow> (\<lparr> content = ExecutionResultText res, isError = False \<rparr>, s1)
      | (Inl message, s1) \<Rightarrow> (\<lparr> content = ExecutionFailedText message, isError = True \<rparr>, s1))"

section \<open>Interleavings\<close>

text \<open>
  Everything runs on one thread, so the subsystem evolves by a sequence of events, each
  running to completion: a call of a public method, a firing of the timer, the answer of
  the Command Host to an outstanding call, a change of the configuration (handled by
  \<^verbatim>\<open>updateAllowedCommands\<close> and \<^verbatim>\<open>updateAsyncConfig\<close>), a call of the tool.
\<close>

datatype Event =
    Submit string "string list option" int
  | Tick
  | HostAnswer ref "string + val"
  | Cancel string
  | ClearCompleted
  | ClearAll
  | Stop
  | Dispose
  | ExecuteCommand "string + val" string "string list option"
  | ConfigurationChanged Configuration

fun step :: "(nat \<Rightarrow> int) \<Rightarrow> Event \<Rightarrow> System \<Rightarrow> System" where
  "step clk (Submit cmd cmdArgs d) s = snd (submitTask clk cmd cmdArgs d s)"
| "step clk Tick s = processPendingTasks clk s"
| "step clk (HostAnswer r outcome) s = executeTask_resume clk r outcome s"
| "step clk (Cancel taskId) s = snd (cancelTask clk taskId s)"
| "step clk ClearCompleted s = snd (clearCompletedTasks s)"
| "step clk ClearAll s = snd (clearAllTasks s)"
| "step clk Stop s = stop s"
| "step clk Dispose s = dispose s"
| "step clk (ExecuteCommand hostOutcome cmd cmdArgs) s =
     snd (execute_vscode_command clk hostOutcome cmd cmdArgs s)"
| "step clk (ConfigurationChanged cfg) s =
     updateAsyncConfig (updateAllowedCommands (s\<lparr>configuration := cfg\<rparr>))"

definition run :: "(nat \<Rightarrow> int) \<Rightarrow> Event list \<Rightarrow> System \<Rightarrow> System" where
  "run clk events s = fold (step clk) events s"

section \<open>Notions used in the statements\<close>

text \<open>
  A task object has been started when it exists and is no longer pending. The calls made to
  the Command Host on behalf of a task object are selected from the log.
\<close>

definition started :: "System \<Rightarrow> ref \<Rightarrow> bool" where
  "started s r = (case objs s r of None \<Rightarrow> False | Some task \<Rightarrow> status task \<noteq> pending)"

definition calls_for :: "System \<Rightarrow> ref \<Rightarrow> HostCall list" where
  "calls_for s r = filter (\<lambda>c. call_task c = Some r) (hostCalls s)"

text \<open>
  The invariant of the reachable states: references are allocated below \<open>nextRef\<close>, a
  task with an outstanding call has been started, a task for which the Command Host was
  called has been started, and no task has more than one call.
\<close>

definition consistent :: "System \<Rightarrow> bool" where
  "consistent s \<longleftrightarrow>
     (\<forall>r. objs s r \<noteq> None \<longrightarrow> r < nextRef s) \<and>
     (\<forall>r \<in> set (awaiting s). started s r) \<and>
     (\<forall>r. calls_for s r \<noteq> [] \<longrightarrow> started s r) \<and>
     (\<forall>r. length (calls_for s r) \<le> 1)"

text \<open>
  What one firing of the timer does to a task object \<open>q\<close>: it leaves the object alone, or it
  launches it, which takes a pending object whose delay has elapsed at a reading \<open>k\<close> of the
  clock, makes it running, stamps it with the next reading and calls the Command Host.
\<close>

definition untouched :: "System \<Rightarrow> System \<Rightarrow> ref \<Rightarrow> bool" where
  "untouched s s' q \<longleftrightarrow>
     objs s' q = objs s q \<and> calls_for s' q = calls_for s q \<and>
     (q \<in> set (awaiting s') \<longleftrightarrow> q \<in> set (awaiting s))"

definition launches :: "(nat \<Rightarrow> int) \<Rightarrow> System \<Rightarrow> System \<Rightarrow> ref \<Rightarrow> bool" where
  "launches clk s s' q \<longleftrightarrow>
     (\<exists>task k. objs s q = Some task \<and> status task = pending \<and>
        clockReads s \<le> k \<and> Suc k < clockReads s' \<and>
        delay task \<le> clk k - createdAt task \<and>
        objs s' q = Some (task\<lparr>status := running, startedAt := Some (clk (Suc k))\<rparr>) \<and>
        calls_for s' q = calls_for s q @
          [HostCall (Some q) (command task) (case args task of None \<Rightarrow> [] | Some a \<Rightarrow> a)] \<and>
        q \<in> set (awaiting s'))"


text \<open>
  Concrete inputs for the examples: the configuration with every setting unset, a
  configuration with an allow-list, a clock that advances by one millisecond at each
  reading and a clock that stands still.
\<close>

definition defaultConfiguration :: Configuration where
  "defaultConfiguration =
     \<lparr> cfg_allowedCommands = None, cfg_asyncExecution = None, cfg_executionDelay = None,
       cfg_showAsyncNotifications = None \<rparr>"


definition tickingClock :: "nat \<Rightarrow> int" where
  "tickingClock n = 1000 + int n"




section \<open>The invariant\<close>

lemma consistentI:
  assumes "\<And>r task. objs s r = Some task \<Longrightarrow> r < nextRef s"
    and "\<And>r. r \<in> set (awaiting s) \<Longrightarrow> started s r"
    and "\<And>r. calls_for s r \<noteq> [] \<Longrightarrow> started s r"
    and "\<And>r. length (calls_for s r) \<le> 1"
  shows "consistent s"
  using assms unfolding consistent_def by auto

lemma consistent_lt: "consistent s \<Longrightarrow> objs s r = Some task \<Longrightarrow> r < nextRef s"
  by (auto simp: consistent_def)

lemma consistent_awaiting: "consistent s \<Longrightarrow> r \<in> set (awaiting s) \<Longrightarrow> started s r"
  by (auto simp: consistent_def)

lemma consistent_calls: "consistent s \<Longrightarrow> calls_for s r \<noteq> [] \<Longrightarrow> started s r"
  by (auto simp: consistent_def)

lemma consistent_once: "consistent s \<Longrightarrow> length (calls_for s r) \<le> 1"
  by (auto simp: consistent_def)

lemma started_Some: "started s r \<Longrightarrow> \<exists>task. objs s r = Some task \<and> status task \<noteq> pending"
  by (auto simp: started_def split: option.splits)

lemma consistent_new: "consistent (CommandExecutor_new cfg)"
  by (simp add: consistent_def CommandExecutor_new_def updateAsyncConfig_def updateAllowedCommands_def
      Let_def started_def calls_for_def)

lemma submitTask_objs:
  "objs (snd (submitTask clk c a d s)) =
     (objs s)(nextRef s \<mapsto>
        \<lparr> id' = fst (submitTask clk c a d s), command = c, args = a, delay = d,
          status = pending, createdAt = clk (Suc (clockReads s)), startedAt = None,
          completedAt = None, result = None, error = None \<rparr>)"
  by (simp add: submitTask_def Date_now_def Let_def)

lemma submitTask_fields:
  "nextRef (snd (submitTask clk c a d s)) = Suc (nextRef s)"
  "awaiting (snd (submitTask clk c a d s)) = awaiting s"
  "hostCalls (snd (submitTask clk c a d s)) = hostCalls s"
  by (simp_all add: submitTask_def Date_now_def Let_def)

lemma consistent_submitTask:
  assumes "consistent s" shows "consistent (snd (submitTask clk c a d s))"
proof -
  let ?s = "snd (submitTask clk c a d s)"
  define task where "task =
        \<lparr> id' = fst (submitTask clk c a d s), command = c, args = a, delay = d,
          status = pending, createdAt = clk (Suc (clockReads s)), startedAt = None,
          completedAt = None, result = None, error = None \<rparr>"
  have t: "status task = pending" "objs ?s = (objs s)(nextRef s \<mapsto> task)"
    by (simp_all add: task_def submitTask_objs)
  have old: "started s r \<Longrightarrow> started ?s r" for r
    using started_Some [of s r] consistent_lt [OF assms, of r] t by (auto simp: started_def)
  have c: "calls_for ?s r = calls_for s r" for r
    by (simp add: calls_for_def submitTask_fields)
  show ?thesis
  proof (rule consistentI)
    fix r task' assume "objs ?s r = Some task'"
    then show "r < nextRef ?s"
      using consistent_lt [OF assms, of r] t by (auto simp: submitTask_fields(1) split: if_splits)
  next
    fix r assume "r \<in> set (awaiting ?s)"
    then show "started ?s r" using consistent_awaiting [OF assms] old by (simp add: submitTask_fields)
  next
    fix r assume "calls_for ?s r \<noteq> []"
    then show "started ?s r" using consistent_calls [OF assms] old c by simp
  next
    fix r show "length (calls_for ?s r) \<le> 1" using consistent_once [OF assms] c by simp
  qed
qed

lemma executeTask_cases:
  "executeTask clk r s = s \<and> status_of s r \<noteq> Some pending \<or>
   (\<exists>task. objs s r = Some task \<and> status task = pending \<and>
      executeTask clk r s = s\<lparr> clockReads := Suc (clockReads s),
        objs := (objs s)(r \<mapsto> task\<lparr>status := running, startedAt := Some (clk (clockReads s))\<rparr>),
        hostCalls := hostCalls s @ [HostCall (Some r) (command task)
                         (case args task of None \<Rightarrow> [] | Some a \<Rightarrow> a)],
        awaiting := awaiting s @ [r] \<rparr>)"
  by (auto simp: executeTask_def Date_now_def Let_def status_of_def split: option.splits)

lemma consistent_executeTask:
  assumes "consistent s" shows "consistent (executeTask clk r s)"
proof -
  let ?s = "executeTask clk r s"
  consider "?s = s" | task where "objs s r = Some task" "status task = pending"
    "?s = s\<lparr> clockReads := Suc (clockReads s),
        objs := (objs s)(r \<mapsto> task\<lparr>status := running, startedAt := Some (clk (clockReads s))\<rparr>),
        hostCalls := hostCalls s @ [HostCall (Some r) (command task)
                         (case args task of None \<Rightarrow> [] | Some a \<Rightarrow> a)],
        awaiting := awaiting s @ [r] \<rparr>"
    using executeTask_cases [of clk r s] by blast
  then show ?thesis
  proof cases
    case 1 then show ?thesis using assms by simp
  next
    case 2
    have old: "started s q \<Longrightarrow> started ?s q" for q
      by (auto simp: started_def 2 split: option.splits)
    have new: "started ?s r" by (simp add: started_def 2)
    have nocall: "calls_for s r = []"
      using consistent_calls [OF assms, of r] 2 by (auto simp: started_def)
    have c: "calls_for ?s q = (if q = r then calls_for s q @ [HostCall (Some r) (command task)
                         (case args task of None \<Rightarrow> [] | Some a \<Rightarrow> a)] else calls_for s q)" for q
      by (auto simp: calls_for_def 2)
    show ?thesis
    proof (rule consistentI)
      fix q task' assume "objs ?s q = Some task'"
      then show "q < nextRef ?s"
        using consistent_lt [OF assms, of q] 2 by (auto split: if_splits)
    next
      fix q assume "q \<in> set (awaiting ?s)"
      then show "started ?s q" using consistent_awaiting [OF assms, of q] old new by (auto simp: 2(3))
    next
      fix q assume "calls_for ?s q \<noteq> []"
      then show "started ?s q" using consistent_calls [OF assms, of q] old new c by (auto split: if_splits)
    next
      fix q show "length (calls_for ?s q) \<le> 1" using consistent_once [OF assms, of q] c nocall by auto
    qed
  qed
qed

lemma consistent_clockReads: "consistent s \<Longrightarrow> consistent (s\<lparr>clockReads := n\<rparr>)"
  by (simp add: consistent_def started_def calls_for_def)

lemma consistent_processTask: "consistent s \<Longrightarrow> consistent (processTask clk r s)"
    unfolding processTask_def Date_now_def Let_def
    by (auto split: option.splits intro!: consistent_executeTask consistent_clockReads)

lemma consistent_fold_processTask: "consistent s \<Longrightarrow> consistent (fold (processTask clk) rs s)"
  by (induction rs arbitrary: s) (auto intro: consistent_processTask)

lemma consistent_processPendingTasks: "consistent s \<Longrightarrow> consistent (processPendingTasks clk s)"
  by (simp add: processPendingTasks_def Let_def consistent_fold_processTask)

lemma resume_fields:
  "hostCalls (executeTask_resume clk r outcome s) = hostCalls s"
  "nextRef (executeTask_resume clk r outcome s) = nextRef s"
  "tasks (executeTask_resume clk r outcome s) = tasks s"
  "awaiting (executeTask_resume clk r outcome s) = awaiting s \<or>
   awaiting (executeTask_resume clk r outcome s) = remove1 r (awaiting s)"
  by (auto simp: executeTask_resume_def Date_now_def Let_def split: option.splits sum.splits)

lemma resume_awaiting_subset:
  "set (awaiting (executeTask_resume clk r outcome s)) \<subseteq> set (awaiting s)"
  using resume_fields(4) [of clk r outcome s] set_remove1_subset [of r "awaiting s"] by auto

lemma resume_objs:
  "objs (executeTask_resume clk r outcome s) q = objs s q \<or>
   (q = r \<and> r \<in> set (awaiting s) \<and>
    (\<exists>task task'. objs s r = Some task \<and> objs (executeTask_resume clk r outcome s) r = Some task' \<and>
       status task' \<in> {completed, failed}))"
  by (auto simp: executeTask_resume_def Date_now_def Let_def split: option.splits sum.splits)

lemma cancel_fields:
  "hostCalls (snd (cancelTask clk taskId s)) = hostCalls s"
  "nextRef (snd (cancelTask clk taskId s)) = nextRef s"
  "tasks (snd (cancelTask clk taskId s)) = tasks s"
  "awaiting (snd (cancelTask clk taskId s)) = awaiting s"
  by (auto simp: cancelTask_def Date_now_def Let_def split: option.splits sum.splits)

lemma cancel_objs:
  "objs (snd (cancelTask clk taskId s)) q = objs s q \<or>
    (\<exists>task task'. objs s q = Some task \<and> objs (snd (cancelTask clk taskId s)) q = Some task' \<and>
       status task' = cancelled)"
  by (auto simp: cancelTask_def Date_now_def Let_def split: option.splits sum.splits)

lemma consistent_frame:
  assumes "consistent s"
    and "\<And>q. calls_for s' q = calls_for s q" and "nextRef s' = nextRef s"
    and "set (awaiting s') \<subseteq> set (awaiting s)"
    and "\<And>q. objs s' q = objs s q \<or>
           (\<exists>task task'. objs s q = Some task \<and> objs s' q = Some task' \<and> status task' \<noteq> pending)"
  shows "consistent s'"
proof -
  have old: "started s q \<Longrightarrow> started s' q" for q
    using assms(5) [of q] by (auto simp: started_def split: option.splits)
  note c = assms(2)
  show ?thesis
  proof (rule consistentI)
    fix q task' assume "objs s' q = Some task'"
    then have "\<exists>task. objs s q = Some task" using assms(5) [of q] by metis
    then show "q < nextRef s'" using consistent_lt [OF assms(1), of q] assms(3) by auto
  next
    fix q assume "q \<in> set (awaiting s')"
    then show "started s' q" using consistent_awaiting [OF assms(1), of q] old assms(4) by auto
  next
    fix q assume "calls_for s' q \<noteq> []"
    then show "started s' q" using consistent_calls [OF assms(1), of q] old c by auto
  next
    fix q show "length (calls_for s' q) \<le> 1" using consistent_once [OF assms(1), of q] c by simp
  qed
qed

lemma consistent_resume: "consistent s \<Longrightarrow> consistent (executeTask_resume clk r outcome s)"
  apply (erule consistent_frame)
  using resume_fields(1,2) resume_awaiting_subset apply (auto simp: calls_for_def)[3]
  subgoal for q using resume_objs [of clk r outcome s q] by auto
  done

lemma consistent_cancelTask: "consistent s \<Longrightarrow> consistent (snd (cancelTask clk taskId s))"
  apply (erule consistent_frame)
  using cancel_fields apply (auto simp: calls_for_def)[3]
  subgoal for q using cancel_objs [of clk taskId s q] by auto
  done

lemma clearCompleted_fields:
  "hostCalls (snd (clearCompletedTasks s)) = hostCalls s"
  "nextRef (snd (clearCompletedTasks s)) = nextRef s"
  "awaiting (snd (clearCompletedTasks s)) = awaiting s"
  "objs (snd (clearCompletedTasks s)) = objs s"
  by (simp_all add: clearCompletedTasks_def Let_def)

lemma clearAll_fields:
  "hostCalls (snd (clearAllTasks s)) = hostCalls s"
  "nextRef (snd (clearAllTasks s)) = nextRef s"
  "awaiting (snd (clearAllTasks s)) = awaiting s"
  "objs (snd (clearAllTasks s)) = objs s"
  "tasks (snd (clearAllTasks s)) = []"
  by (simp_all add: clearAllTasks_def Let_def)

lemma stop_fields:
  "hostCalls (stop s) = hostCalls s"
  "nextRef (stop s) = nextRef s"
  "awaiting (stop s) = awaiting s"
  "objs (stop s) = objs s"
  "tasks (stop s) = tasks s"
  "isRunning (stop s) = False"
  "processingInterval (stop s) = False"
  by (simp_all add: stop_def Let_def)

lemma dispose_fields:
  "hostCalls (dispose s) = hostCalls s"
  "nextRef (dispose s) = nextRef s"
  "awaiting (dispose s) = awaiting s"
  "objs (dispose s) = objs s"
  "tasks (dispose s) = []"
  "isRunning (dispose s) = False"
  "processingInterval (dispose s) = False"
  by (simp_all add: dispose_def clearAllTasks_def stop_def Let_def)

lemma updateAllowedCommands_fields:
  "hostCalls (updateAllowedCommands s) = hostCalls s"
  "nextRef (updateAllowedCommands s) = nextRef s"
  "awaiting (updateAllowedCommands s) = awaiting s"
  "objs (updateAllowedCommands s) = objs s"
  "tasks (updateAllowedCommands s) = tasks s"
  "isRunning (updateAllowedCommands s) = isRunning s"
  by (simp_all add: updateAllowedCommands_def)

lemma updateAsyncConfig_fields:
  "hostCalls (updateAsyncConfig s) = hostCalls s"
  "nextRef (updateAsyncConfig s) = nextRef s"
  "awaiting (updateAsyncConfig s) = awaiting s"
  "objs (updateAsyncConfig s) = objs s"
  "isRunning (updateAsyncConfig s) = isRunning s"
  by (simp_all add: updateAsyncConfig_def clearAllTasks_def Let_def)

lemma consistent_same:
  assumes "consistent s" "\<And>q. calls_for s' q = calls_for s q" "nextRef s' = nextRef s"
    "awaiting s' = awaiting s" "objs s' = objs s"
  shows "consistent s'"
  using assms(1) by (rule consistent_frame) (simp_all add: assms)

lemma executeCommand_cases:
  "snd (executeCommand clk h c a s) = s \<or>
   snd (executeCommand clk h c a s) = snd (submitTask clk c a (executionDelay s) s) \<or>
   snd (executeCommand clk h c a s) =
     s\<lparr>hostCalls := hostCalls s @ [HostCall None c (case a of None \<Rightarrow> [] | Some x \<Rightarrow> x)]\<rparr>"
  by (auto simp: executeCommand_def Let_def split: prod.splits sum.splits)

lemma tool_snd:
  "snd (execute_vscode_command clk h c a s) =
   snd (executeCommand clk h c (Some (case a of None \<Rightarrow> [] | Some x \<Rightarrow> x)) s)"
  by (auto simp: execute_vscode_command_def split: prod.splits sum.splits)

lemma consistent_executeCommand: "consistent s \<Longrightarrow> consistent (snd (executeCommand clk h c a s))"
proof -
  assume i: "consistent s"
  have "consistent (s\<lparr>hostCalls := hostCalls s @ [HostCall None c (case a of None \<Rightarrow> [] | Some x \<Rightarrow> x)]\<rparr>)"
    using i by (rule consistent_same) (simp_all add: calls_for_def)
  then show ?thesis
    using executeCommand_cases [of clk h c a s] i consistent_submitTask [OF i, of clk c a "executionDelay s"]
    by auto
qed

lemma consistent_step:
  assumes "consistent s" shows "consistent (step clk e s)"
proof (cases e)
  case (Submit c a d)
  then show ?thesis using assms by (simp add: consistent_submitTask)
next
  case Tick
  then show ?thesis using assms by (simp add: consistent_processPendingTasks)
next
  case (HostAnswer r outcome)
  then show ?thesis using assms by (simp add: consistent_resume)
next
  case (Cancel taskId)
  then show ?thesis using assms by (simp add: consistent_cancelTask)
next
  case ClearCompleted
  show ?thesis unfolding ClearCompleted step.simps using assms
    by (rule consistent_same) (simp_all add: calls_for_def clearCompleted_fields)
next
  case ClearAll
  show ?thesis unfolding ClearAll step.simps using assms
    by (rule consistent_same) (simp_all add: calls_for_def clearAll_fields)
next
  case Stop
  show ?thesis unfolding Stop step.simps using assms
    by (rule consistent_same) (simp_all add: calls_for_def stop_fields)
next
  case Dispose
  show ?thesis unfolding Dispose step.simps using assms
    by (rule consistent_same) (simp_all add: calls_for_def dispose_fields)
next
  case (ExecuteCommand h c a)
  then show ?thesis using assms by (simp add: tool_snd consistent_executeCommand)
next
  case (ConfigurationChanged cfg)
  show ?thesis unfolding ConfigurationChanged step.simps using assms
    by (rule consistent_same)
      (simp_all add: calls_for_def updateAsyncConfig_fields updateAllowedCommands_fields)
qed

lemma consistent_run: "consistent s \<Longrightarrow> consistent (run clk events s)"
  unfolding run_def by (induction events arbitrary: s) (auto intro: consistent_step)

section \<open>The effect of the timer on a task\<close>

lemma processTask_fields:
  "nextRef (processTask clk r s) = nextRef s"
  "tasks (processTask clk r s) = tasks s"
  "isRunning (processTask clk r s) = isRunning s"
  "processingInterval (processTask clk r s) = processingInterval s"
  "clockReads s \<le> clockReads (processTask clk r s)"
  by (auto simp: processTask_def executeTask_def Date_now_def Let_def split: option.splits)

lemma processTask_effect:
  "untouched s (processTask clk r s) q \<or> launches clk s (processTask clk r s) q"
  unfolding untouched_def launches_def processTask_def executeTask_def Date_now_def Let_def calls_for_def
  by (cases "objs s r") (auto intro!: exI [of _ "clockReads s"])

lemma processTask_skip:
  "objs s r = Some task \<Longrightarrow> status task = pending \<Longrightarrow>
   \<not> delay task \<le> clk (clockReads s) - createdAt task \<Longrightarrow>
   processTask clk r s = s\<lparr>clockReads := Suc (clockReads s)\<rparr>"
  by (simp add: processTask_def Date_now_def Let_def)


lemma untouched_refl: "untouched s s q"
  by (simp add: untouched_def)

lemma effect_trans:
  assumes "untouched s s1 q \<or> launches clk s s1 q"
    and "untouched s1 s2 q \<or> launches clk s1 s2 q"
    and "clockReads s \<le> clockReads s1" and "clockReads s1 \<le> clockReads s2"
  shows "untouched s s2 q \<or> launches clk s s2 q"
proof -
  consider (uu) "untouched s s1 q" "untouched s1 s2 q"
    | (ul) "untouched s s1 q" "launches clk s1 s2 q"
    | (lu) "launches clk s s1 q" "untouched s1 s2 q"
    | (ll) "launches clk s s1 q" "launches clk s1 s2 q"
    using assms(1,2) by blast
  then show ?thesis
  proof cases
    case uu then show ?thesis by (simp add: untouched_def)
  next
    case ul
    from ul(2) obtain task k where k: "objs s1 q = Some task" "status task = pending"
        "clockReads s1 \<le> k" "Suc k < clockReads s2"
        "delay task \<le> clk k - createdAt task"
        "objs s2 q = Some (task\<lparr>status := running, startedAt := Some (clk (Suc k))\<rparr>)"
        "calls_for s2 q = calls_for s1 q @
          [HostCall (Some q) (command task) (case args task of None \<Rightarrow> [] | Some a \<Rightarrow> a)]"
        "q \<in> set (awaiting s2)"
      unfolding launches_def by blast
    have "launches clk s s2 q"
      unfolding launches_def
      apply (rule exI [of _ task], rule exI [of _ k])
      using k ul(1) assms(3) by (simp add: untouched_def)
    then show ?thesis ..
  next
    case lu
    from lu(1) obtain task k where k: "objs s q = Some task" "status task = pending"
        "clockReads s \<le> k" "Suc k < clockReads s1"
        "delay task \<le> clk k - createdAt task"
        "objs s1 q = Some (task\<lparr>status := running, startedAt := Some (clk (Suc k))\<rparr>)"
        "calls_for s1 q = calls_for s q @
          [HostCall (Some q) (command task) (case args task of None \<Rightarrow> [] | Some a \<Rightarrow> a)]"
        "q \<in> set (awaiting s1)"
      unfolding launches_def by blast
    have "launches clk s s2 q"
      unfolding launches_def
      apply (rule exI [of _ task], rule exI [of _ k])
      using k lu(2) assms(4) by (simp add: untouched_def)
    then show ?thesis ..
  next
    case ll
    then have False by (auto simp: launches_def)
    then show ?thesis ..
  qed
qed


lemma fold_processTask_clock: "clockReads s \<le> clockReads (fold (processTask clk) rs s)"
proof (induction rs arbitrary: s)
  case Nil then show ?case by simp
next
  case (Cons r rs)
  have "clockReads s \<le> clockReads (processTask clk r s)" by (rule processTask_fields)
  also have "\<dots> \<le> clockReads (fold (processTask clk) rs (processTask clk r s))" by (rule Cons.IH)
  finally show ?case by simp
qed

lemma fold_processTask_effect:
  "untouched s (fold (processTask clk) rs s) q \<or> launches clk s (fold (processTask clk) rs s) q"
proof (induction rs arbitrary: s)
  case Nil then show ?case by (simp add: untouched_refl)
next
  case (Cons r rs)
  show ?case
    unfolding fold_simps
    by (rule effect_trans [OF processTask_effect Cons.IH processTask_fields(5) fold_processTask_clock])
qed

lemma processPendingTasks_effect:
  "untouched s (processPendingTasks clk s) q \<or> launches clk s (processPendingTasks clk s) q"
  by (simp add: processPendingTasks_def Let_def untouched_refl fold_processTask_effect)



section \<open>The effect of one event on a task\<close>

lemma tool_cases:
  "snd (execute_vscode_command clk h c a s) = s \<or>
   (\<exists>a' d. snd (execute_vscode_command clk h c a s) = snd (submitTask clk c a' d s)) \<or>
   (\<exists>call. call_task call = None \<and>
      snd (execute_vscode_command clk h c a s) = s\<lparr>hostCalls := hostCalls s @ [call]\<rparr>)"
  unfolding tool_snd
  using executeCommand_cases [of clk h c "Some (case a of None \<Rightarrow> [] | Some x \<Rightarrow> x)" s]
  by (elim disjE) (auto intro: exI [of _ "HostCall None c (case a of None \<Rightarrow> [] | Some x \<Rightarrow> x)"])

lemma calls_for_step:
  assumes "e \<noteq> Tick" shows "calls_for (step clk e s) q = calls_for s q"
proof (cases e)
  case (ExecuteCommand h c a)
  show ?thesis unfolding ExecuteCommand step.simps
    using tool_cases [of clk h c a s]
    by (auto simp: calls_for_def submitTask_fields)
qed (use assms in \<open>simp_all add: calls_for_def submitTask_fields resume_fields cancel_fields
      clearCompleted_fields clearAll_fields stop_fields dispose_fields
      updateAsyncConfig_fields updateAllowedCommands_fields\<close>)

lemma step_calls:
  assumes "calls_for (step clk e s) q \<noteq> calls_for s q"
  shows "e = Tick \<and> launches clk s (step clk e s) q"
proof -
  have t: "e = Tick" using assms calls_for_step by blast
  then show ?thesis
    using assms processPendingTasks_effect [of s clk q] by (auto simp: untouched_def)
qed




lemma run_Cons: "run clk (e # events) s = run clk events (step clk e s)"
  by (simp add: run_def)

lemma run_Nil: "run clk [] s = s"
  by (simp add: run_def)



section \<open>Cancelled tasks and the cleared store\<close>

lemma cancelled_step:
  assumes c: "consistent s" and st: "status_of s r = Some cancelled"
    and aw: "r \<notin> set (awaiting s)"
  shows "status_of (step clk e s) r = Some cancelled \<and> r \<notin> set (awaiting (step clk e s))"
proof -
  obtain task where task: "objs s r = Some task" "status task = cancelled"
    using st by (auto simp: status_of_def)
  have lt: "r < nextRef s" using c task(1) by (rule consistent_lt)
  have sub: "status_of (snd (submitTask clk cmd a d s)) r = Some cancelled \<and>
             r \<notin> set (awaiting (snd (submitTask clk cmd a d s)))" for cmd a d
    using lt task aw by (simp add: status_of_def submitTask_objs submitTask_fields)
  show ?thesis
  proof (cases e)
    case (Submit cmd a d)
    then show ?thesis using sub by simp
  next
    case Tick
    have "untouched s (processPendingTasks clk s) r"
      using processPendingTasks_effect [of s clk r] task by (auto simp: launches_def)
    then show ?thesis using Tick task aw by (simp add: untouched_def status_of_def)
  next
    case (HostAnswer r' outcome)
    have "objs (executeTask_resume clk r' outcome s) r = objs s r"
      using resume_objs [of clk r' outcome s r] aw by auto
    moreover have "r \<notin> set (awaiting (executeTask_resume clk r' outcome s))"
      using resume_awaiting_subset [of clk r' outcome s] aw by auto
    ultimately show ?thesis using HostAnswer task by (simp add: status_of_def)
  next
    case (Cancel taskId)
    show ?thesis unfolding Cancel step.simps
      using cancel_objs [of clk taskId s r] task aw
      by (auto simp: status_of_def cancel_fields)
  next
    case (ExecuteCommand h cmd a)
    show ?thesis unfolding ExecuteCommand step.simps
      using tool_cases [of clk h cmd a s] sub st aw
      by (auto simp: status_of_def)
  qed (use st aw in \<open>simp_all add: status_of_def clearCompleted_fields clearAll_fields stop_fields
        dispose_fields updateAsyncConfig_fields updateAllowedCommands_fields\<close>)
qed

lemma cancelled_run:
  assumes "consistent s" and "status_of s r = Some cancelled" and "r \<notin> set (awaiting s)"
  shows "status_of (run clk events s) r = Some cancelled"
  using assms
proof (induction events arbitrary: s)
  case Nil then show ?case by (simp add: run_Nil)
next
  case (Cons e events)
  have "status_of (run clk events (step clk e s)) r = Some cancelled"
  proof (rule Cons.IH)
    show "consistent (step clk e s)" using Cons.prems(1) by (rule consistent_step)
    show "status_of (step clk e s) r = Some cancelled"
      using cancelled_step [OF Cons.prems] by simp
    show "r \<notin> set (awaiting (step clk e s))"
      using cancelled_step [OF Cons.prems] by simp
  qed
  then show ?case by (simp add: run_Cons)
qed





section \<open>Task identifiers\<close>


















section \<open>Properties of the allow-list gate\<close>

lemma endsWith_star: "endsWith a ''*'' \<longleftrightarrow> (\<exists>p. a = p @ ''*'')"
proof
  assume h: "endsWith a ''*''"
  then have "a \<noteq> []" by (auto simp: endsWith_def)
  moreover from h have "drop (length a - 1) a = ''*''" by (simp add: endsWith_def)
  ultimately have "a = take (length a - 1) a @ ''*''"
    by (metis append_take_drop_id)
  then show "\<exists>p. a = p @ ''*''" ..
next
  assume "\<exists>p. a = p @ ''*''"
  then show "endsWith a ''*''" by (auto simp: endsWith_def)
qed

lemma slice_strip_last: "slice (p @ [c]) 0 (- 1) = p"
  by (simp add: slice_def Let_def)

lemma startsWith_append: "startsWith s p \<longleftrightarrow> (\<exists>rest. s = p @ rest)"
proof
  assume "startsWith s p"
  then have "s = p @ drop (length p) s"
    by (metis append_take_drop_id startsWith_def)
  then show "\<exists>rest. s = p @ rest" ..
next
  assume "\<exists>rest. s = p @ rest"
  then show "startsWith s p" by (auto simp: startsWith_def)
qed

text \<open>
  Claim C1. With an empty allow-list every command is allowed. With a non-empty allow-list a
  command is allowed exactly when it equals an entry that does not end in the star, or some
  entry ends in the star and the command starts with that entry without its last character.
\<close>

theorem isCommandAllowed_spec:
  "(allowList = [] \<longrightarrow> isCommandAllowed allowList cmd) \<and>
   (allowList \<noteq> [] \<longrightarrow>
      (isCommandAllowed allowList cmd \<longleftrightarrow>
         (\<exists>a \<in> set allowList.
            (\<not> (\<exists>p. a = p @ ''*'') \<and> cmd = a) \<or>
            (\<exists>p rest. a = p @ ''*'' \<and> cmd = p @ rest))))"
proof (intro conjI impI)
  assume "allowList = []"
  then show "isCommandAllowed allowList cmd"
    by (simp add: isCommandAllowed_def)
next
  assume ne: "allowList \<noteq> []"
  have entry: "(if endsWith a ''*''
                then (let prefix = slice a 0 (- 1) in startsWith cmd prefix)
                else cmd = a) \<longleftrightarrow>
               ((\<not> (\<exists>p. a = p @ ''*'') \<and> cmd = a) \<or>
                (\<exists>p rest. a = p @ ''*'' \<and> cmd = p @ rest))" for a
  proof (cases "endsWith a ''*''")
    case True
    then obtain p where a: "a = p @ ''*''" using endsWith_star by blast
    have "slice a 0 (- 1) = p" unfolding a by (rule slice_strip_last)
    with True a show ?thesis by (auto simp: startsWith_append)
  next
    case False
    then have "\<not> (\<exists>p. a = p @ ''*'')" using endsWith_star by blast
    with False show ?thesis by auto
  qed
  from ne show "isCommandAllowed allowList cmd \<longleftrightarrow>
         (\<exists>a \<in> set allowList.
            (\<not> (\<exists>p. a = p @ ''*'') \<and> cmd = a) \<or>
            (\<exists>p rest. a = p @ ''*'' \<and> cmd = p @ rest))"
    unfolding isCommandAllowed_def list_ex_iff
    by (simp only: entry length_0_conv if_False)
qed

theorem isCommandAllowed_spec_witness:
  "isCommandAllowed [] ''c.other'' \<and>
   isCommandAllowed [''a.*'', ''b.exec''] ''a.run'' \<and>
   isCommandAllowed [''a.*'', ''b.exec''] ''b.exec'' \<and>
   \<not> isCommandAllowed [''a.*'', ''b.exec''] ''c.other''"
proof -
  have e: "isCommandAllowed [] ''c.other''"
    using isCommandAllowed_spec [of "[]" "''c.other''"] by simp
  have r: "isCommandAllowed [''a.*'', ''b.exec''] ''a.run''"
    using isCommandAllowed_spec [of "[''a.*'', ''b.exec'']" "''a.run''"] by simp
  have x: "isCommandAllowed [''a.*'', ''b.exec''] ''b.exec''"
    using isCommandAllowed_spec [of "[''a.*'', ''b.exec'']" "''b.exec''"] by simp
  have o: "\<not> isCommandAllowed [''a.*'', ''b.exec''] ''c.other''"
    using isCommandAllowed_spec [of "[''a.*'', ''b.exec'']" "''c.other''"] by simp
  from e r x o show ?thesis by simp
qed

section \<open>Rejected commands\<close>



section \<open>The scheduler\<close>

text \<open>
  Claim C3. In every state reached from a new executor by any sequence of events, the
  Command Host has been called at most once for each task object. An event that adds a call
  for a task is a firing of the timer; the task was pending before it and had no call, and
  in the state in which the call has been made the task is running and carries its
  \<^verbatim>\<open>startedAt\<close> stamp.
\<close>

theorem host_call_at_most_once:
  assumes "s = run clk events (CommandExecutor_new cfg)"
  shows "length (calls_for s r) \<le> 1 \<and>
         (\<forall>e. calls_for (step clk e s) r \<noteq> calls_for s r \<longrightarrow>
            e = Tick \<and> status_of s r = Some pending \<and> calls_for s r = [] \<and>
            status_of (step clk e s) r = Some running \<and>
            (\<exists>task t. objs (step clk e s) r = Some task \<and> startedAt task = Some t) \<and>
            (\<exists>c a. calls_for (step clk e s) r = [HostCall (Some r) c a]))"
proof -
  have c: "consistent s" unfolding assms by (rule consistent_run) (rule consistent_new)
  have once: "length (calls_for s r) \<le> 1" using c by (rule consistent_once)
  have "e = Tick \<and> status_of s r = Some pending \<and> calls_for s r = [] \<and>
            status_of (step clk e s) r = Some running \<and>
            (\<exists>task t. objs (step clk e s) r = Some task \<and> startedAt task = Some t) \<and>
            (\<exists>c a. calls_for (step clk e s) r = [HostCall (Some r) c a])"
    if new: "calls_for (step clk e s) r \<noteq> calls_for s r" for e
  proof -
    from step_calls [OF new] have t: "e = Tick" and l: "launches clk s (step clk e s) r" by auto
    from l obtain task k where k: "objs s r = Some task" "status task = pending"
        "objs (step clk e s) r = Some (task\<lparr>status := running, startedAt := Some (clk (Suc k))\<rparr>)"
        "calls_for (step clk e s) r = calls_for s r @
          [HostCall (Some r) (command task) (case args task of None \<Rightarrow> [] | Some a \<Rightarrow> a)]"
      unfolding launches_def by blast
    have "\<not> started s r" using k(1,2) by (simp add: started_def)
    then have none: "calls_for s r = []" using consistent_calls [OF c] by blast
    show ?thesis using t k none by (simp add: status_of_def)
  qed
  then show ?thesis using once by blast
qed

theorem host_call_at_most_once_witness:
  "calls_for (step tickingClock Tick
       (run tickingClock [Submit ''c'' None 0] (CommandExecutor_new defaultConfiguration))) 0 \<noteq>
     calls_for (run tickingClock [Submit ''c'' None 0] (CommandExecutor_new defaultConfiguration)) 0 \<and>
   status_of (run tickingClock [Submit ''c'' None 0] (CommandExecutor_new defaultConfiguration)) 0
     = Some pending \<and>
   status_of (step tickingClock Tick
       (run tickingClock [Submit ''c'' None 0] (CommandExecutor_new defaultConfiguration))) 0
     = Some running \<and>
   length (calls_for (run tickingClock [Submit ''c'' None 0, Tick, Tick, Tick]
       (CommandExecutor_new defaultConfiguration)) 0) \<le> 1"
proof -
  let ?s = "run tickingClock [Submit ''c'' None 0] (CommandExecutor_new defaultConfiguration)"
  have h: "calls_for (step tickingClock Tick ?s) 0 \<noteq> calls_for ?s 0" by code_simp
  show ?thesis
    using h
      host_call_at_most_once [where clk = tickingClock and events = "[Submit ''c'' None 0]"
        and cfg = defaultConfiguration and r = 0, OF refl]
      host_call_at_most_once [where clk = tickingClock and events = "[Submit ''c'' None 0, Tick, Tick, Tick]"
        and cfg = defaultConfiguration and r = 0, OF refl]
    by blast
qed



section \<open>Disabling asynchronous execution\<close>


section \<open>Time stamps\<close>

text \<open>
  Claim C6, evaluated on the code. A task is submitted and started; it is cancelled while its
  call of the Command Host is outstanding, which sets \<^verbatim>\<open>completedAt\<close>; when the Command
  Host answers, the task becomes completed and \<^verbatim>\<open>completedAt\<close> is assigned again, with a
  later reading of the clock.
\<close>

theorem completedAt_overwritten_after_cancel:
  "map_option (\<lambda>task. (status task, completedAt task)) (getTask
      (run tickingClock [Submit ''c'' None 0, Tick]
         (CommandExecutor_new defaultConfiguration)) ''bg_task_1_1000'') = Some (running, None) \<and>
   map_option (\<lambda>task. (status task, completedAt task)) (getTask
      (run tickingClock [Submit ''c'' None 0, Tick, Cancel ''bg_task_1_1000'']
         (CommandExecutor_new defaultConfiguration)) ''bg_task_1_1000'') = Some (cancelled, Some 1004) \<and>
   map_option (\<lambda>task. (status task, completedAt task)) (getTask
      (run tickingClock [Submit ''c'' None 0, Tick, Cancel ''bg_task_1_1000'', HostAnswer 0 (Inr ''v'')]
         (CommandExecutor_new defaultConfiguration)) ''bg_task_1_1000'') = Some (completed, Some 1005)"
  by code_simp

section \<open>Cancellation\<close>

text \<open>
  Claim C7. In every reachable state, \<^verbatim>\<open>cancelTask\<close> on the identifier of a pending task
  returns true and makes the task cancelled, and the task stays cancelled through every
  later sequence of events: no firing of the timer and no answer of the Command Host makes
  it running, completed or failed.
\<close>

theorem cancel_pending_is_final:
  assumes "s = run clk events (CommandExecutor_new cfg)"
    and "map_of (tasks s) taskId = Some r"
    and "status_of s r = Some pending"
  shows "fst (cancelTask clk taskId s) = True \<and>
         status_of (snd (cancelTask clk taskId s)) r = Some cancelled \<and>
         (\<forall>later. status_of (run clk later (snd (cancelTask clk taskId s))) r = Some cancelled)"
proof -
  let ?s = "snd (cancelTask clk taskId s)"
  have c: "consistent s" unfolding assms(1) by (rule consistent_run) (rule consistent_new)
  obtain task where task: "objs s r = Some task" "status task = pending"
    using assms(3) by (auto simp: status_of_def)
  have ret: "fst (cancelTask clk taskId s) = True"
    using assms(2) task by (simp add: cancelTask_def Date_now_def Let_def)
  have st: "status_of ?s r = Some cancelled"
    using assms(2) task by (simp add: cancelTask_def Date_now_def Let_def status_of_def)
  have "\<not> started s r" using task by (simp add: started_def)
  then have "r \<notin> set (awaiting s)" using consistent_awaiting [OF c] by blast
  then have aw: "r \<notin> set (awaiting ?s)" by (simp add: cancel_fields)
  have c': "consistent ?s" using c by (rule consistent_cancelTask)
  show ?thesis using ret st cancelled_run [OF c' st aw] by blast
qed

theorem cancel_pending_is_final_witness:
  "map_of (tasks (run tickingClock [Submit ''c'' None 5] (CommandExecutor_new defaultConfiguration)))
      ''bg_task_1_1000'' = Some 0 \<and>
   status_of (run tickingClock [Submit ''c'' None 5] (CommandExecutor_new defaultConfiguration)) 0
      = Some pending \<and>
   fst (cancelTask tickingClock ''bg_task_1_1000''
      (run tickingClock [Submit ''c'' None 5] (CommandExecutor_new defaultConfiguration))) \<and>
   status_of (run tickingClock [Tick, HostAnswer 0 (Inr ''v''), Tick, Tick]
      (snd (cancelTask tickingClock ''bg_task_1_1000''
         (run tickingClock [Submit ''c'' None 5] (CommandExecutor_new defaultConfiguration))))) 0
      = Some cancelled"
proof -
  let ?s = "run tickingClock [Submit ''c'' None 5] (CommandExecutor_new defaultConfiguration)"
  have m: "map_of (tasks ?s) ''bg_task_1_1000'' = Some 0" by code_simp
  have p: "status_of ?s 0 = Some pending" by code_simp
  show ?thesis
    using m p
      cancel_pending_is_final [where clk = tickingClock and events = "[Submit ''c'' None 5]"
        and cfg = defaultConfiguration, OF refl m p]
    by simp
qed

section \<open>Shutdown\<close>



section \<open>The list of commands\<close>

text \<open>
  Claim C9. With the names reported by the Command Host, \<^verbatim>\<open>getAvailableCommands\<close>
  returns, in lexicographic order, all of them when the allow-list is empty and those that
  pass the gate otherwise; the tool shows the first twenty and adds its marker exactly when
  more than twenty names are left after filtering. With the allow-list \<open>a.*\<close>, \<open>b.exec\<close>
  and the host commands \<open>a.run\<close>, \<open>a.stop\<close>, \<open>b.exec\<close>, \<open>c.other\<close> the tool shows
  \<open>a.run\<close>, \<open>a.stop\<close>, \<open>b.exec\<close>.
\<close>

theorem list_vscode_commands_spec:
  "mset (getAvailableCommands allowList (Inr names)) =
     mset (if allowList = [] then names else filter (isCommandAllowed allowList) names) \<and>
   sorted (getAvailableCommands allowList (Inr names)) \<and>
   shown (list_vscode_commands allowList (Inr names)) =
     take 20 (getAvailableCommands allowList (Inr names)) \<and>
   sorted (shown (list_vscode_commands allowList (Inr names))) \<and>
   (moreMarker (list_vscode_commands allowList (Inr names)) \<longleftrightarrow>
      20 < length (if allowList = [] then names else filter (isCommandAllowed allowList) names)) \<and>
   shown (list_vscode_commands [''a.*'', ''b.exec'']
            (Inr [''a.run'', ''a.stop'', ''b.exec'', ''c.other''])) =
     [''a.run'', ''a.stop'', ''b.exec''] \<and>
   \<not> moreMarker (list_vscode_commands [''a.*'', ''b.exec'']
            (Inr [''a.run'', ''a.stop'', ''b.exec'', ''c.other'']))"
proof -
  let ?kept = "if allowList = [] then names else filter (isCommandAllowed allowList) names"
  have all: "getAvailableCommands allowList (Inr names) = sort ?kept"
    by (simp add: getAvailableCommands_def Let_def)
  have len: "length (sort ?kept) = length ?kept"
    by (rule length_sort)
  have ex1: "shown (list_vscode_commands [''a.*'', ''b.exec'']
            (Inr [''a.run'', ''a.stop'', ''b.exec'', ''c.other''])) =
     [''a.run'', ''a.stop'', ''b.exec'']"
    by code_simp
  have ex2: "\<not> moreMarker (list_vscode_commands [''a.*'', ''b.exec'']
            (Inr [''a.run'', ''a.stop'', ''b.exec'', ''c.other'']))"
    by code_simp
  have s: "sorted (take 20 (sort ?kept))" by (rule sorted_wrt_take) simp
  show ?thesis
    unfolding all list_vscode_commands_def Let_def
    using ex1 ex2 s len by (simp add: list_vscode_commands_def Let_def all)
qed

theorem list_vscode_commands_spec_witness:
  "list_vscode_commands [''w.*'']
     (Inr (map (\<lambda>c. ''w.'' @ [c]) ''vutsrqponmlkjihgfedcba'' @ [''x.y''])) =
   \<lparr> total = 22, shown = map (\<lambda>c. ''w.'' @ [c]) ''abcdefghijklmnopqrst'', moreMarker = True \<rparr>"
proof -
  have f: "filter (isCommandAllowed [''w.*''])
             (map (\<lambda>c. ''w.'' @ [c]) ''vutsrqponmlkjihgfedcba'' @ [''x.y'']) =
           map (\<lambda>c. ''w.'' @ [c]) ''vutsrqponmlkjihgfedcba''"
    by code_simp
  have t: "total (list_vscode_commands [''w.*'']
     (Inr (map (\<lambda>c. ''w.'' @ [c]) ''vutsrqponmlkjihgfedcba'' @ [''x.y'']))) = 22"
    by code_simp
  have sh: "take 20 (getAvailableCommands [''w.*'']
     (Inr (map (\<lambda>c. ''w.'' @ [c]) ''vutsrqponmlkjihgfedcba'' @ [''x.y''])))
     = map (\<lambda>c. ''w.'' @ [c]) ''abcdefghijklmnopqrst''"
    by code_simp
  show ?thesis
    using list_vscode_commands_spec [of "[''w.*'']"
        "map (\<lambda>c. ''w.'' @ [c]) ''vutsrqponmlkjihgfedcba'' @ [''x.y'']"] f t sh
    by (cases "list_vscode_commands [''w.*'']
     (Inr (map (\<lambda>c. ''w.'' @ [c]) ''vutsrqponmlkjihgfedcba'' @ [''x.y'']))") simp
qed

end
